theory Spec2Isabelle
  imports Main "HOL-Library.Word"
begin

section \<open>The flight database of main.cpp\<close>

text \<open>
  The program keeps a vector of flights (\<open>db\<close>) and a stack of flights (\<open>bt\<close>) and
  searches a route between two cities. Everything the C++ does besides returning a value
  is explicit here: the two containers are threaded through as a record, a thrown exception
  and every step the language leaves undefined is a value of \<open>error\<close>.
\<close>

datatype error =
    Overrun            \<comment> \<open>a 20-byte name buffer without terminator is read as a C string\<close>
  | StackUnderflow     \<comment> \<open>\<open>bt.top()\<close> on the empty stack\<close>
  | BadOptionalAccess  \<comment> \<open>\<open>value()\<close> of an empty optional: \<open>std::bad_optional_access\<close>\<close>
  | SignedOverflow     \<comment> \<open>\<open>dist += t.distance\<close> leaves the range of \<open>int\<close>\<close>

subsection \<open>Flight\<close>

text \<open>
  \<open>std::array<char, 20> from{}, to{}\<close>: two buffers of 20 bytes, zero-initialised.
  The field names carry a suffix because \<open>from\<close> is a keyword here. The distance is an
  \<open>int\<close> of 32 bits; \<open>sint\<close> reads it as the signed number that the comparisons
  \<open>dist > 0\<close> see.
\<close>

record Flight =
  from_buf :: "char list"
  to_buf :: "char list"
  skip :: bool
  distance :: "32 word"

definition NUL :: char where
  "NUL = CHR 0x00"

text \<open>
  \<open>f.copy(from.data(), from.size())\<close> on a zeroed buffer: at most 20 characters of the
  view are copied, the rest of the buffer stays zero, and no terminator is written.
\<close>

definition copy_buf :: "string \<Rightarrow> char list" where
  "copy_buf s = take 20 s @ replicate (20 - length s) NUL"

definition Flight_ctor :: "string \<times> string \<Rightarrow> 32 word \<Rightarrow> Flight" where
  "Flight_ctor from_to d =
     (case from_to of (f, t) \<Rightarrow>
        \<lparr>from_buf = copy_buf f, to_buf = copy_buf t, skip = False, distance = d\<rparr>)"

text \<open>
  Reading a buffer through \<open>data()\<close> or \<open>begin()\<close> as a C string (the \<open>const char*\<close>
  overload of \<open>compare\<close>, the conversion of \<open>char*\<close> to \<open>string_view\<close>, \<open>printf("%s")\<close>):
  the characters before the first zero byte. A buffer without zero byte is read past its
  end.
\<close>

definition name_of :: "char list \<Rightarrow> string" where
  "name_of buf = takeWhile (\<lambda>c. c \<noteq> NUL) buf"

definition c_str :: "char list \<Rightarrow> error + string" where
  "c_str buf = (if NUL \<in> set buf then Inr (name_of buf) else Inl Overrun)"

text \<open>\<open>Flight::operator==\<close>; the second comparison runs only when the first one holds.\<close>

definition flight_eq :: "Flight \<Rightarrow> string \<times> string \<Rightarrow> error + bool" where
  "flight_eq f q =
     (case q of (qfrom, qto) \<Rightarrow>
        (case c_str (from_buf f) of
           Inl e \<Rightarrow> Inl e
         | Inr s \<Rightarrow>
             if qfrom = s
             then (case c_str (to_buf f) of Inl e \<Rightarrow> Inl e | Inr t \<Rightarrow> Inr (qto = t))
             else Inr False))"

subsection \<open>FlightDB\<close>

text \<open>The stack \<open>bt\<close> is a list whose head is the top.\<close>

record FlightDB =
  db :: "Flight list"
  bt :: "Flight list"

datatype SearchMethod = BreadthFirst | DepthFirst

text \<open>
  \<open>MAX_size\<close> is the constant \<open>MAX\<close> of the source, the \<open>N\<close> of the database of
  \<open>main\<close>. The constructor only reserves room for \<open>N\<close> flights, and \<open>append_flight\<close>
  is \<open>emplace_back\<close> on the vector.
\<close>

definition MAX_size :: nat where
  "MAX_size = 100"

definition FlightDB_ctor :: "nat \<Rightarrow> FlightDB" where
  "FlightDB_ctor N = \<lparr>db = [], bt = []\<rparr>"

definition append_flight :: "FlightDB \<Rightarrow> string \<times> string \<Rightarrow> 32 word \<Rightarrow> FlightDB" where
  "append_flight s from_to d = s\<lparr>db := db s @ [Flight_ctor from_to d]\<rparr>"

text \<open>\<open>std::find_if\<close> with the predicate \<open>f == from_to\<close>.\<close>

fun find_if :: "Flight list \<Rightarrow> string \<times> string \<Rightarrow> error + Flight option" where
  "find_if [] q = Inr None"
| "find_if (f # fs) q =
     (case flight_eq f q of
        Inl e \<Rightarrow> Inl e
      | Inr b \<Rightarrow> if b then Inr (Some f) else find_if fs q)"

definition get_distance :: "Flight list \<Rightarrow> string \<times> string \<Rightarrow> error + (32 word) option" where
  "get_distance fs q =
     (case find_if fs q of Inl e \<Rightarrow> Inl e | Inr r \<Rightarrow> Inr (map_option distance r))"

text \<open>
  \<open>find_connecting\<close> returns the optional pair and the vector as the loop leaves it.
  The name in the pair is a view of the \<open>to\<close> buffer of the flight found.
\<close>

fun find_connecting ::
  "Flight list \<Rightarrow> string \<Rightarrow> error + ((string \<times> 32 word) option \<times> Flight list)" where
  "find_connecting [] n = Inr (None, [])"
| "find_connecting (f # fs) n =
     (case c_str (from_buf f) of
        Inl e \<Rightarrow> Inl e
      | Inr s \<Rightarrow>
          if n = s \<and> \<not> skip f
          then (case c_str (to_buf f) of
                  Inl e \<Rightarrow> Inl e
                | Inr t \<Rightarrow> Inr (Some (t, distance f), f\<lparr>skip := True\<rparr> # fs))
          else (case find_connecting fs n of
                  Inl e \<Rightarrow> Inl e
                | Inr (r, fs') \<Rightarrow> Inr (r, f # fs')))"

subsection \<open>search_flight\<close>

text \<open>
  One activation of \<open>search_flight\<close> either returns (\<open>Done\<close>) or ends in a call of itself
  with a new pair of cities; one round of the \<open>while (true)\<close> loop of the breadth-first
  variant that does not return starts the next round with the same pair (\<open>Next\<close>).
\<close>

datatype step = Done FlightDB | Next FlightDB "string \<times> string"

definition value_or :: "'a option \<Rightarrow> 'a \<Rightarrow> 'a" where
  "value_or r d = (case r of None \<Rightarrow> d | Some v \<Rightarrow> v)"

text \<open>The part after the comment \<open>try another connection\<close>: extend the path or backtrack.\<close>

definition try_another :: "FlightDB \<Rightarrow> string \<times> string \<Rightarrow> error + step" where
  "try_another s from_to =
     (case from_to of (from, to) \<Rightarrow>
        (case find_connecting (db s) from of
           Inl e \<Rightarrow> Inl e
         | Inr (Some (anywhere, d), db') \<Rightarrow>
             Inr (Next (s\<lparr>db := db', bt := Flight_ctor from_to d # bt s\<rparr>) (anywhere, to))
         | Inr (None, db') \<Rightarrow>
             (case bt s of
                [] \<Rightarrow> Inl StackUnderflow
              | f # rest \<Rightarrow>
                  (case c_str (from_buf f) of
                     Inl e \<Rightarrow> Inl e
                   | Inr ffrom \<Rightarrow>
                       (case c_str (to_buf f) of
                          Inl e \<Rightarrow> Inl e
                        | Inr fto \<Rightarrow> Inr (Next (s\<lparr>db := db', bt := rest\<rparr>) (ffrom, fto)))))))"

definition dfs_step :: "FlightDB \<Rightarrow> string \<times> string \<Rightarrow> error + step" where
  "dfs_step s from_to =
     (case get_distance (db s) from_to of
        Inl e \<Rightarrow> Inl e
      | Inr r \<Rightarrow>
          let dist = value_or r 0
          in if 0 < sint dist
             then Inr (Done (s\<lparr>bt := Flight_ctor from_to dist # bt s\<rparr>))
             else try_another s from_to)"

definition bfs_step :: "FlightDB \<Rightarrow> string \<times> string \<Rightarrow> error + step" where
  "bfs_step s from_to =
     (case from_to of (from, to) \<Rightarrow>
        (case find_connecting (db s) from of
           Inl e \<Rightarrow> Inl e
         | Inr (None, db') \<Rightarrow> Inl BadOptionalAccess
         | Inr (Some (anywhere, dist), db') \<Rightarrow>
             if 0 < sint dist
             then (case get_distance db' (anywhere, to) of
                     Inl e \<Rightarrow> Inl e
                   | Inr r \<Rightarrow>
                       let d = value_or r 0
                       in if 0 < sint d
                          then Inr (Done (s\<lparr>db := db',
                                 bt := Flight_ctor (anywhere, to) d # Flight_ctor from_to dist # bt s\<rparr>))
                          else Inr (Next (s\<lparr>db := db'\<rparr>) from_to))
             else Inr (Next (s\<lparr>db := db'\<rparr>) from_to)))"

definition search_step :: "SearchMethod \<Rightarrow> FlightDB \<Rightarrow> string \<times> string \<Rightarrow> error + step" where
  "search_step M s from_to =
     (case M of DepthFirst \<Rightarrow> dfs_step s from_to | BreadthFirst \<Rightarrow> bfs_step s from_to)"

text \<open>The flights a search can still take, and the measure that every step lowers.\<close>

definition unvisited :: "Flight list \<Rightarrow> nat" where
  "unvisited fs = length (filter (\<lambda>f. \<not> skip f) fs)"

definition search_measure :: "FlightDB \<Rightarrow> nat" where
  "search_measure s = 2 * unvisited (db s) + length (bt s)"

text \<open>
  \<open>search_flight<M>\<close>: the recursion of the depth-first variant and the loop of the
  breadth-first one. Both are total: every step that goes on lowers \<open>search_measure\<close>
  (proved below, before anything else).
\<close>

function search_flight :: "SearchMethod \<Rightarrow> FlightDB \<Rightarrow> string \<times> string \<Rightarrow> error + FlightDB" where
  "search_flight M s from_to =
     (case search_step M s from_to of
        Inl e \<Rightarrow> Inl e
      | Inr (Done s') \<Rightarrow> Inr s'
      | Inr (Next s' from_to') \<Rightarrow> search_flight M s' from_to')"
  by pat_completeness auto

subsection \<open>route\<close>

text \<open>
  The loop of \<open>route\<close> empties the stack from the top. It prints the \<open>from\<close> buffer of
  every flight as a C string and adds the distances up in an \<open>int\<close>, which must stay in
  range. The result holds the names in the order printed and the sum.
\<close>

fun drain :: "Flight list \<Rightarrow> int \<Rightarrow> error + (string list \<times> int)" where
  "drain [] dist = Inr ([], dist)"
| "drain (t # rest) dist =
     (case c_str (from_buf t) of
        Inl e \<Rightarrow> Inl e
      | Inr name \<Rightarrow>
          let dist' = dist + sint (distance t)
          in if dist' < - (2 ^ 31) \<or> 2 ^ 31 \<le> dist'
             then Inl SignedOverflow
             else (case drain rest dist' of
                     Inl e \<Rightarrow> Inl e
                   | Inr (names, tot) \<Rightarrow> Inr (name # names, tot)))"

text \<open>
  The last name printed is the destination asked for, read as a C string from the start of
  the view; the view is taken to end at a terminator, as a view of a literal does.
\<close>

definition route ::
  "SearchMethod \<Rightarrow> FlightDB \<Rightarrow> string \<times> string \<Rightarrow> error + (FlightDB \<times> string list \<times> int)" where
  "route M s from_to =
     (case search_flight M s from_to of
        Inl e \<Rightarrow> Inl e
      | Inr s' \<Rightarrow>
          (case drain (bt s') 0 of
             Inl e \<Rightarrow> Inl e
           | Inr (names, tot) \<Rightarrow>
               Inr (s'\<lparr>bt := []\<rparr>, names @ [name_of (snd from_to)], tot)))"

text \<open>
  \<open>main\<close> fills its database with one \<open>append_flight\<close> after the other; an entry is
  the pair of names and the distance of one such call.
\<close>

definition insert_all :: "((string \<times> string) \<times> 32 word) list \<Rightarrow> FlightDB" where
  "insert_all es = foldl (\<lambda>s e. append_flight s (fst e) (snd e)) (FlightDB_ctor MAX_size) es"

definition main_entries :: "((string \<times> string) \<times> 32 word) list" where
  "main_entries =
     [((''New York'', ''Chicago''), 1000),
      ((''Chicago'', ''Denver''), 1000),
      ((''New York'', ''Toronto''), 800),
      ((''New York'', ''Denver''), 1900),
      ((''Toronto'', ''Calgary''), 1500),
      ((''Toronto'', ''Los Angeles''), 1800),
      ((''Toronto'', ''Chicago''), 500),
      ((''Denver'', ''Urbana''), 1000),
      ((''Denver'', ''Houston''), 1500),
      ((''Houston'', ''Los Angeles''), 1500),
      ((''Denver'', ''Los Angeles''), 1000)]"

definition main_db :: FlightDB where
  "main_db = insert_all main_entries"

subsection \<open>Notions used in the statements\<close>

text \<open>
  A flight whose two buffers hold a zero byte, as they do when the flight was built from
  names shorter than 20 characters: reading them as C strings stays inside the buffers.
\<close>

definition terminated :: "Flight \<Rightarrow> bool" where
  "terminated f \<longleftrightarrow> NUL \<in> set (from_buf f) \<and> NUL \<in> set (to_buf f)"

text \<open>An unvisited flight out of the city \<open>n\<close>; a flight between the two cities of \<open>q\<close>.\<close>

definition departs :: "string \<Rightarrow> Flight \<Rightarrow> bool" where
  "departs n f \<longleftrightarrow> name_of (from_buf f) = n \<and> \<not> skip f"

definition connects :: "string \<times> string \<Rightarrow> Flight \<Rightarrow> bool" where
  "connects q f \<longleftrightarrow> name_of (from_buf f) = fst q \<and> name_of (to_buf f) = snd q"

text \<open>A database filled up to \<open>MAX\<close> by \<open>append_flight\<close>, and a small one with a visited flight.\<close>

definition full_db :: FlightDB where
  "full_db = ((\<lambda>s. append_flight s (''A'', ''B'') 1) ^^ MAX_size) (FlightDB_ctor MAX_size)"

definition ab_flights :: "Flight list" where
  "ab_flights =
     [Flight_ctor (''A'', ''B'') 7, (Flight_ctor (''C'', ''D'') 4)\<lparr>skip := True\<rparr>,
      Flight_ctor (''C'', ''E'') 9, Flight_ctor (''C'', ''F'') 3]"


text \<open>
  What a search may do to a stored flight: both names and the distance stay, and a flag
  that is set stays set. \<open>graph_kept\<close> says so of every position of the vector, which
  then has as many flights as before, in the same order.
\<close>

definition same_edge :: "Flight \<Rightarrow> Flight \<Rightarrow> bool" where
  "same_edge e e' \<longleftrightarrow>
     from_buf e' = from_buf e \<and> to_buf e' = to_buf e \<and> distance e' = distance e \<and>
     (skip e \<longrightarrow> skip e')"

definition graph_kept :: "Flight list \<Rightarrow> Flight list \<Rightarrow> bool" where
  "graph_kept fs fs' \<longleftrightarrow> list_all2 same_edge fs fs'"

text \<open>
  The activations of \<open>search_flight\<close> (and the rounds of its loop) that one call
  \<open>search_flight M s q\<close> goes through, whether the call returns in the end or not.
\<close>

inductive calls ::
  "SearchMethod \<Rightarrow> FlightDB \<Rightarrow> string \<times> string \<Rightarrow> FlightDB \<Rightarrow> string \<times> string \<Rightarrow> bool"
  for M s q where
    first_call: "calls M s q s q"
  | next_call: "calls M s q s' q' \<Longrightarrow> search_step M s' q' = Inr (Next s'' q'') \<Longrightarrow> calls M s q s'' q''"

definition ny_la :: "string \<times> string" where
  "ny_la = (''New York'', ''Los Angeles'')"

text \<open>Two flights between the same two cities, the second one with distance 0.\<close>

definition par_db :: FlightDB where
  "par_db =
     append_flight (append_flight (FlightDB_ctor MAX_size) (''A'', ''B'') 5) (''A'', ''B'') 0"

text \<open>The same two flights in the other order, and a flight to a third city.\<close>

definition zero_db :: FlightDB where
  "zero_db =
     append_flight (append_flight (append_flight (FlightDB_ctor MAX_size)
       (''A'', ''B'') 0) (''A'', ''B'') 5) (''A'', ''C'') 3"

text \<open>
  A name that fits its buffer together with a terminator: fewer than 20 characters, none
  of them the zero byte. An entry is a pair of names with a distance, as \<open>main\<close> passes
  them to \<open>append_flight\<close>.
\<close>

definition short_name :: "string \<Rightarrow> bool" where
  "short_name n \<longleftrightarrow> length n < 20 \<and> NUL \<notin> set n"





text \<open>
  The flights as a relation between names, and a flight whose buffers have the size they
  have in the program and hold their terminator.
\<close>

definition edges :: "Flight list \<Rightarrow> (string \<times> string) set" where
  "edges fs = (\<lambda>f. (name_of (from_buf f), name_of (to_buf f))) ` set fs"

definition stored :: "Flight \<Rightarrow> bool" where
  "stored f \<longleftrightarrow> terminated f \<and> length (from_buf f) = 20 \<and> length (to_buf f) = 20"

text \<open>
  What holds at every activation of a depth-first search for \<open>dest\<close> that started at
  \<open>origin\<close>: the city reached and the cities on the stack can be reached from \<open>origin\<close>,
  and every flight on the stack was built from such a city and \<open>dest\<close>.
\<close>

definition dfs_inv :: "string \<Rightarrow> string \<Rightarrow> (string \<times> string) set \<Rightarrow> FlightDB \<Rightarrow> string \<Rightarrow> bool" where
  "dfs_inv origin dest E s from \<longleftrightarrow>
     list_all stored (db s) \<and> edges (db s) = E \<and> short_name dest \<and>
     short_name from \<and> (origin, from) \<in> E\<^sup>* \<and>
     (\<forall>f\<in>set (bt s). \<exists>n. short_name n \<and> (origin, n) \<in> E\<^sup>* \<and>
        from_buf f = copy_buf n \<and> to_buf f = copy_buf dest)"

section \<open>Properties\<close>

subsection \<open>search_flight terminates\<close>

lemma find_connecting_None:
  "find_connecting fs n = Inr (None, fs') \<Longrightarrow> fs' = fs"
  by (induction fs arbitrary: fs')
     (auto split: sum.splits if_splits prod.splits)

lemma find_connecting_Some_unvisited:
  "find_connecting fs n = Inr (Some x, fs') \<Longrightarrow> Suc (unvisited fs') = unvisited fs"
  by (induction fs arbitrary: fs')
     (auto simp: unvisited_def split: sum.splits if_splits prod.splits)

lemma search_step_measure:
  "search_step M s q = Inr (Next s' q') \<Longrightarrow> search_measure s' < search_measure s"
  by (cases M)
     (auto simp: search_step_def dfs_step_def bfs_step_def try_another_def search_measure_def Let_def
        dest!: find_connecting_None find_connecting_Some_unvisited
        split: sum.splits prod.splits option.splits if_splits list.splits)

termination search_flight
  by (relation "measure (\<lambda>(M, s, q). search_measure s)") (auto dest: search_step_measure)


subsection \<open>append_flight\<close>

lemma length_db_funpow_append:
  "length (db (((\<lambda>s. append_flight s q d) ^^ k) s)) = length (db s) + k"
  by (induction k) (simp_all add: append_flight_def)

text \<open>
  C3, as stated: with \<open>N\<close> flights stored, one more insertion is refused and the stored
  sequence stays as it is. The code has no such check: \<open>full_db\<close> holds \<open>MAX\<close> flights, and
  the next \<open>append_flight\<close> changes the stored sequence.
\<close>

theorem append_flight_full_counterexample:
  "length (db full_db) = MAX_size \<and>
   db (append_flight full_db (''C'', ''D'') 2) \<noteq> db full_db"
proof
  show "length (db full_db) = MAX_size"
    by (simp add: full_db_def length_db_funpow_append FlightDB_ctor_def)
  show "db (append_flight full_db (''C'', ''D'') 2) \<noteq> db full_db"
    by (simp add: append_flight_def)
qed

text \<open>
  C3, amended: \<open>append_flight\<close> never refuses. Whatever the number of flights stored, it
  puts the new flight, unvisited, behind the others, and leaves the stack alone.
\<close>

theorem append_flight_always_appends:
  "db (append_flight s from_to d) = db s @ [Flight_ctor from_to d] \<and>
   bt (append_flight s from_to d) = bt s \<and>
   length (db (append_flight s from_to d)) = Suc (length (db s)) \<and>
   skip (Flight_ctor from_to d) = False"
  by (cases from_to) (simp add: append_flight_def Flight_ctor_def)

subsection \<open>find_connecting\<close>








subsection \<open>get_distance\<close>

lemma flight_eq_terminated:
  "terminated f \<Longrightarrow> flight_eq f q = Inr (connects q f)"
  by (cases q) (auto simp: flight_eq_def c_str_def terminated_def connects_def)

lemma find_if_none:
  "list_all terminated fs \<Longrightarrow> \<forall>i<length fs. \<not> connects q (fs ! i) \<Longrightarrow> find_if fs q = Inr None"
proof (induction fs)
  case Nil
  then show ?case by simp
next
  case (Cons f fs)
  from Cons.prems(2) have "\<not> connects q f" by auto
  moreover from Cons.prems(2) have "\<forall>i<length fs. \<not> connects q (fs ! i)" by auto
  ultimately show ?case
    using Cons by (simp add: flight_eq_terminated)
qed

lemma find_if_first:
  "list_all terminated fs \<Longrightarrow> i < length fs \<Longrightarrow> connects q (fs ! i) \<Longrightarrow>
   \<forall>j<i. \<not> connects q (fs ! j) \<Longrightarrow> find_if fs q = Inr (Some (fs ! i))"
proof (induction fs arbitrary: i)
  case Nil
  then show ?case by simp
next
  case (Cons f fs)
  show ?case
  proof (cases i)
    case 0
    with Cons.prems show ?thesis
      by (simp add: flight_eq_terminated)
  next
    case (Suc k)
    with Cons.prems have nf: "\<not> connects q f" by auto
    from Suc Cons.prems have "\<forall>j<k. \<not> connects q (fs ! j)" by auto
    with Suc Cons.prems Cons.IH [of k] have "find_if fs q = Inr (Some (fs ! k))"
      by simp
    with nf Suc Cons.prems(1) show ?thesis
      by (simp add: flight_eq_terminated)
  qed
qed








subsection \<open>What a search changes in the database\<close>

lemma graph_kept_refl: "graph_kept fs fs"
  by (simp add: graph_kept_def same_edge_def list_all2_same)

lemma same_edge_trans: "same_edge a b \<Longrightarrow> same_edge b c \<Longrightarrow> same_edge a c"
  by (simp add: same_edge_def)

lemma graph_kept_trans:
  "graph_kept fs fs' \<Longrightarrow> graph_kept fs' fs'' \<Longrightarrow> graph_kept fs fs''"
  unfolding graph_kept_def
  by (rule list_all2_trans [of same_edge same_edge same_edge, OF same_edge_trans])

lemma graph_kept_Cons:
  "graph_kept (f # fs) (f' # fs') \<longleftrightarrow> same_edge f f' \<and> graph_kept fs fs'"
  by (simp add: graph_kept_def)

lemma find_connecting_kept:
  "find_connecting fs n = Inr (r, fs') \<Longrightarrow> graph_kept fs fs'"
proof (induction fs arbitrary: r fs')
  case Nil
  then show ?case by (simp add: graph_kept_def)
next
  case (Cons f fs)
  then show ?case
    by (auto simp: graph_kept_Cons graph_kept_refl same_edge_def
        split: sum.splits if_splits prod.splits)
qed

lemma try_another_kept:
  "try_another s q = Inr (Next s' q') \<Longrightarrow> graph_kept (db s) (db s')"
  by (auto simp: try_another_def dest: find_connecting_kept
      split: sum.splits prod.splits option.splits list.splits)

lemma search_step_Next_kept:
  "search_step M s q = Inr (Next s' q') \<Longrightarrow> graph_kept (db s) (db s')"
  by (cases M)
     (auto simp: search_step_def dfs_step_def bfs_step_def Let_def
        dest: find_connecting_kept try_another_kept
        split: sum.splits prod.splits option.splits if_splits)

lemma search_step_Done_kept:
  "search_step M s q = Inr (Done s') \<Longrightarrow> graph_kept (db s) (db s')"
  by (cases M)
     (auto simp: search_step_def dfs_step_def bfs_step_def try_another_def Let_def graph_kept_refl
        dest: find_connecting_kept
        split: sum.splits prod.splits option.splits if_splits list.splits)

lemma calls_kept:
  "calls M s q s' q' \<Longrightarrow> graph_kept (db s) (db s')"
  by (induction rule: calls.induct)
     (auto intro: graph_kept_refl graph_kept_trans dest: search_step_Next_kept)

lemma search_flight_kept:
  "search_flight M s q = Inr s' \<Longrightarrow> graph_kept (db s) (db s')"
proof (induction M s q arbitrary: s' rule: search_flight.induct)
  case (1 M s from_to)
  show ?case
  proof (cases "search_step M s from_to")
    case (Inl e)
    with "1.prems" show ?thesis by simp
  next
    case (Inr st)
    show ?thesis
    proof (cases st)
      case (Done s1)
      with Inr "1.prems" have "s1 = s'" by simp
      with Inr Done show ?thesis by (auto dest: search_step_Done_kept)
    next
      case (Next s1 q1)
      with Inr "1.prems" have "search_flight M s1 q1 = Inr s'" by simp
      from Inr Next have "graph_kept (db s) (db s1)"
        by (auto dest: search_step_Next_kept)
      moreover from \<open>search_flight M s1 q1 = Inr s'\<close>
      have "graph_kept (db s1) (db s')" by (rule "1.IH" [OF Inr Next])
      ultimately show ?thesis by (rule graph_kept_trans)
    qed
  qed
qed

text \<open>
  C8: nothing a search does changes the origin, the destination or the distance of a stored
  flight, or the number or the order of the flights, and no flag goes from set to unset:
  not in \<open>find_connecting\<close>, the only operation that writes to the vector, not in a step
  that returns, not in a step that goes on (extending, backtracking, or the next round of
  the breadth-first loop), not up to any activation that a call goes through, and not in a
  whole call that returns. This holds for both strategies.
\<close>

theorem search_keeps_graph:
  "(find_connecting fs n = Inr (r, fs') \<longrightarrow> graph_kept fs fs') \<and>
   (search_step M s q = Inr (Done s1) \<longrightarrow> graph_kept (db s) (db s1)) \<and>
   (search_step M s q = Inr (Next s2 q2) \<longrightarrow> graph_kept (db s) (db s2)) \<and>
   (calls M s q s3 q3 \<longrightarrow> graph_kept (db s) (db s3)) \<and>
   (search_flight M s q = Inr s4 \<longrightarrow> graph_kept (db s) (db s4))"
  by (intro conjI impI)
     (erule find_connecting_kept search_step_Done_kept search_step_Next_kept calls_kept
        search_flight_kept)+

theorem search_keeps_graph_witness:
  "find_connecting ab_flights ''C'' =
     Inr (Some (''E'', 9), ab_flights[2 := (ab_flights ! 2)\<lparr>skip := True\<rparr>]) \<and>
   graph_kept ab_flights (ab_flights[2 := (ab_flights ! 2)\<lparr>skip := True\<rparr>]) \<and>
   search_step DepthFirst main_db (''Denver'', ''Los Angeles'') =
     Inr (Done (main_db\<lparr>bt := [Flight_ctor (''Denver'', ''Los Angeles'') 1000]\<rparr>)) \<and>
   graph_kept (db main_db) (db (main_db\<lparr>bt := [Flight_ctor (''Denver'', ''Los Angeles'') 1000]\<rparr>)) \<and>
   search_step DepthFirst main_db ny_la =
     Inr (Next (main_db\<lparr>db := (db main_db)[0 := (db main_db ! 0)\<lparr>skip := True\<rparr>],
                       bt := [Flight_ctor ny_la 1000]\<rparr>) (''Chicago'', ''Los Angeles'')) \<and>
   graph_kept (db main_db) ((db main_db)[0 := (db main_db ! 0)\<lparr>skip := True\<rparr>]) \<and>
   calls BreadthFirst main_db ny_la main_db ny_la \<and>
   search_flight DepthFirst main_db ny_la = Inr (projr (search_flight DepthFirst main_db ny_la)) \<and>
   graph_kept (db main_db) (db (projr (search_flight DepthFirst main_db ny_la))) \<and>
   \<not> skip (db main_db ! 0) \<and> skip (db (projr (search_flight DepthFirst main_db ny_la)) ! 0)"
proof -
  have fc: "find_connecting ab_flights ''C'' =
     Inr (Some (''E'', 9), ab_flights[2 := (ab_flights ! 2)\<lparr>skip := True\<rparr>])"
    by code_simp
  have dn: "search_step DepthFirst main_db (''Denver'', ''Los Angeles'') =
     Inr (Done (main_db\<lparr>bt := [Flight_ctor (''Denver'', ''Los Angeles'') 1000]\<rparr>))"
    by code_simp
  have nx: "search_step DepthFirst main_db ny_la =
     Inr (Next (main_db\<lparr>db := (db main_db)[0 := (db main_db ! 0)\<lparr>skip := True\<rparr>],
                       bt := [Flight_ctor ny_la 1000]\<rparr>) (''Chicago'', ''Los Angeles''))"
    by code_simp
  have cl: "calls BreadthFirst main_db ny_la main_db ny_la"
    by (rule first_call)
  have sf: "search_flight DepthFirst main_db ny_la =
     Inr (projr (search_flight DepthFirst main_db ny_la))"
    by code_simp
  have fl: "\<not> skip (db main_db ! 0)" "skip (db (projr (search_flight DepthFirst main_db ny_la)) ! 0)"
    by code_simp+
  note k1 = search_keeps_graph [THEN conjunct1, rule_format, OF fc]
  note k2 = search_keeps_graph [THEN conjunct2, THEN conjunct1, rule_format, OF dn]
  note k3 = search_keeps_graph [THEN conjunct2, THEN conjunct2, THEN conjunct1, rule_format, OF nx]
  note k4 = search_keeps_graph [THEN conjunct2, THEN conjunct2, THEN conjunct2, THEN conjunct1,
      rule_format, OF cl]
  note k5 = search_keeps_graph [THEN conjunct2, THEN conjunct2, THEN conjunct2, THEN conjunct2,
      rule_format, OF sf]
  from k3 have k3': "graph_kept (db main_db) ((db main_db)[0 := (db main_db ! 0)\<lparr>skip := True\<rparr>])"
    by simp
  from fc k1 dn k2 nx k3' cl sf k5 fl show ?thesis
    by (intro conjI)
qed

subsection \<open>The steps of the depth-first search\<close>

lemma dfs_step_no_direct:
  "get_distance (db s) q = Inr r \<Longrightarrow> \<not> 0 < sint (value_or r 0) \<Longrightarrow>
   dfs_step s q = try_another s q"
  by (simp add: dfs_step_def Let_def)

lemma try_another_extend:
  "find_connecting (db s) from = Inr (Some (anywhere, d), db') \<Longrightarrow>
   try_another s (from, to) =
     Inr (Next (s\<lparr>db := db', bt := Flight_ctor (from, to) d # bt s\<rparr>) (anywhere, to))"
  by (simp add: try_another_def)

lemma try_another_not_Done:
  "try_another s q \<noteq> Inr (Done s')"
  by (auto simp: try_another_def split: prod.splits sum.splits option.splits list.splits)

lemma dfs_step_Done:
  "dfs_step s q = Inr (Done s') \<Longrightarrow>
   \<exists>w. get_distance (db s) q = Inr (Some w) \<and> 0 < sint w \<and>
       s' = s\<lparr>bt := Flight_ctor q w # bt s\<rparr>"
  by (auto simp: dfs_step_def Let_def value_or_def try_another_not_Done
      split: sum.splits option.splits if_splits)

text \<open>
  C4, as stated: the flight pushed in the extension step leads from the origin to the next
  city. In the database of \<open>main\<close>, asked for New York to Los Angeles, \<open>find_connecting\<close>
  yields Chicago with 1000; the flight pushed is built from New York and Los Angeles, and
  its \<open>to\<close> buffer does not hold Chicago.
\<close>

theorem extension_frame_counterexample:
  "find_connecting (db main_db) ''New York'' =
     Inr (Some (''Chicago'', 1000), (db main_db)[0 := (db main_db ! 0)\<lparr>skip := True\<rparr>]) \<and>
   dfs_step main_db (''New York'', ''Los Angeles'') =
     Inr (Next (main_db\<lparr>db := (db main_db)[0 := (db main_db ! 0)\<lparr>skip := True\<rparr>],
                       bt := [Flight_ctor (''New York'', ''Los Angeles'') 1000]\<rparr>)
            (''Chicago'', ''Los Angeles'')) \<and>
   Flight_ctor (''New York'', ''Los Angeles'') 1000 \<noteq> Flight_ctor (''New York'', ''Chicago'') 1000 \<and>
   to_buf (Flight_ctor (''New York'', ''Los Angeles'') 1000) \<noteq> copy_buf ''Chicago''"
  by code_simp

text \<open>
  C4, amended: when the direct check of the depth-first step fails and \<open>find_connecting\<close>
  yields a next city and a distance, the flight pushed is built from the pair of cities the
  search was called with and that distance: its \<open>from\<close> buffer holds the origin, its \<open>to\<close>
  buffer the destination of the search (not the next city), each cut to 20 characters, and
  it is unvisited. The search goes on from the next city to the same destination.
\<close>

theorem extension_pushes_search_pair:
  "get_distance (db s) (from, to) = Inr r \<Longrightarrow> \<not> 0 < sint (value_or r 0) \<Longrightarrow>
   find_connecting (db s) from = Inr (Some (next_location, weight), db') \<Longrightarrow>
   dfs_step s (from, to) =
     Inr (Next (s\<lparr>db := db', bt := Flight_ctor (from, to) weight # bt s\<rparr>) (next_location, to)) \<and>
   from_buf (Flight_ctor (from, to) weight) = copy_buf from \<and>
   to_buf (Flight_ctor (from, to) weight) = copy_buf to \<and>
   distance (Flight_ctor (from, to) weight) = weight \<and>
   \<not> skip (Flight_ctor (from, to) weight)"
  by (simp add: dfs_step_no_direct try_another_extend Flight_ctor_def)

theorem extension_pushes_search_pair_witness:
  "get_distance (db main_db) (''New York'', ''Los Angeles'') = Inr None \<and>
   \<not> 0 < sint (value_or (None :: 32 word option) 0) \<and>
   find_connecting (db main_db) ''New York'' =
     Inr (Some (''Chicago'', 1000), (db main_db)[0 := (db main_db ! 0)\<lparr>skip := True\<rparr>]) \<and>
   dfs_step main_db (''New York'', ''Los Angeles'') =
     Inr (Next (main_db\<lparr>db := (db main_db)[0 := (db main_db ! 0)\<lparr>skip := True\<rparr>],
                       bt := Flight_ctor (''New York'', ''Los Angeles'') 1000 # bt main_db\<rparr>)
            (''Chicago'', ''Los Angeles'')) \<and>
   to_buf (Flight_ctor (''New York'', ''Los Angeles'') 1000) = copy_buf ''Los Angeles''"
proof -
  have gd: "get_distance (db main_db) (''New York'', ''Los Angeles'') = Inr None"
    by code_simp
  have np: "\<not> 0 < sint (value_or (None :: 32 word option) 0)"
    by (simp add: value_or_def)
  have fc: "find_connecting (db main_db) ''New York'' =
     Inr (Some (''Chicago'', 1000), (db main_db)[0 := (db main_db ! 0)\<lparr>skip := True\<rparr>])"
    by code_simp
  from extension_pushes_search_pair [OF gd np fc] gd np fc show ?thesis
    by simp
qed

text \<open>
  C10, as stated: in every database with a flight of distance 0 between the two cities,
  the depth-first step goes on to extend the path as if there were no direct flight.
  \<open>par_db\<close> holds such a flight behind one of distance 5 between the same cities: the step
  returns with the first flight and does not extend.
\<close>

theorem zero_weight_counterexample:
  "connects (''A'', ''B'') (db par_db ! 1) \<and> distance (db par_db ! 1) = 0 \<and>
   dfs_step par_db (''A'', ''B'') = Inr (Done (par_db\<lparr>bt := [Flight_ctor (''A'', ''B'') 5]\<rparr>)) \<and>
   dfs_step par_db (''A'', ''B'') \<noteq> try_another par_db (''A'', ''B'')"
  by code_simp

text \<open>
  C10, amended: when the first flight between the two cities, in the order of insertion,
  has distance 0 (or a negative one), the depth-first step does not accept it, also when a
  later flight between the same cities has a positive distance: the step is the extension
  step, as it is when no flight joins the two cities (first conjunct, for buffers that hold
  their terminators; second and third conjunct, for every database, in terms of what
  \<open>get_distance\<close> returns). In every database, a step that returns pushes a flight of
  positive distance, the one \<open>get_distance\<close> found, so a flight of distance 0 never ends
  a branch.
\<close>

theorem zero_weight_not_accepted:
  "(list_all terminated (db s) \<longrightarrow>
      (\<forall>i<length (db s). connects q (db s ! i) \<longrightarrow> (\<forall>j<i. \<not> connects q (db s ! j)) \<longrightarrow>
         sint (distance (db s ! i)) \<le> 0 \<longrightarrow> dfs_step s q = try_another s q) \<and>
      ((\<forall>i<length (db s). \<not> connects q (db s ! i)) \<longrightarrow> dfs_step s q = try_another s q)) \<and>
   (\<forall>w. get_distance (db s) q = Inr (Some w) \<longrightarrow> sint w \<le> 0 \<longrightarrow>
      dfs_step s q = try_another s q) \<and>
   (get_distance (db s) q = Inr None \<longrightarrow> dfs_step s q = try_another s q) \<and>
   (\<forall>s'. dfs_step s q = Inr (Done s') \<longrightarrow>
      (\<exists>w. get_distance (db s) q = Inr (Some w) \<and> 0 < sint w \<and> w \<noteq> 0 \<and>
           s' = s\<lparr>bt := Flight_ctor q w # bt s\<rparr>))"
proof (intro conjI allI impI)
  fix i
  assume "list_all terminated (db s)" "i < length (db s)" "connects q (db s ! i)"
    "\<forall>j<i. \<not> connects q (db s ! j)" "sint (distance (db s ! i)) \<le> 0"
  then show "dfs_step s q = try_another s q"
    by (intro dfs_step_no_direct [where r = "Some (distance (db s ! i))"])
       (simp_all add: get_distance_def find_if_first value_or_def)
next
  assume "list_all terminated (db s)" "\<forall>i<length (db s). \<not> connects q (db s ! i)"
  then show "dfs_step s q = try_another s q"
    by (intro dfs_step_no_direct [where r = None])
       (simp_all add: get_distance_def find_if_none value_or_def)
next
  fix w
  assume "get_distance (db s) q = Inr (Some w)" "sint w \<le> 0"
  then show "dfs_step s q = try_another s q"
    by (intro dfs_step_no_direct [where r = "Some w"]) (simp_all add: value_or_def)
next
  assume "get_distance (db s) q = Inr None"
  then show "dfs_step s q = try_another s q"
    by (intro dfs_step_no_direct [where r = None]) (simp_all add: value_or_def)
next
  fix s'
  assume "dfs_step s q = Inr (Done s')"
  from dfs_step_Done [OF this]
  show "\<exists>w. get_distance (db s) q = Inr (Some w) \<and> 0 < sint w \<and> w \<noteq> 0 \<and>
           s' = s\<lparr>bt := Flight_ctor q w # bt s\<rparr>"
    by auto
qed

theorem zero_weight_not_accepted_witness:
  "list_all terminated (db zero_db) \<and>
   connects (''A'', ''B'') (db zero_db ! 0) \<and> sint (distance (db zero_db ! 0)) \<le> 0 \<and>
   connects (''A'', ''B'') (db zero_db ! 1) \<and> 0 < sint (distance (db zero_db ! 1)) \<and>
   get_distance (db zero_db) (''A'', ''B'') = Inr (Some 0) \<and>
   get_distance (db zero_db) (''A'', ''D'') = Inr None \<and>
   dfs_step zero_db (''A'', ''B'') = try_another zero_db (''A'', ''B'') \<and>
   dfs_step zero_db (''A'', ''D'') = try_another zero_db (''A'', ''D'') \<and>
   dfs_step par_db (''A'', ''B'') = Inr (Done (par_db\<lparr>bt := [Flight_ctor (''A'', ''B'') 5]\<rparr>)) \<and>
   (\<exists>w. get_distance (db par_db) (''A'', ''B'') = Inr (Some w) \<and> 0 < sint w \<and> w \<noteq> 0 \<and>
        par_db\<lparr>bt := [Flight_ctor (''A'', ''B'') 5]\<rparr> =
          par_db\<lparr>bt := Flight_ctor (''A'', ''B'') w # bt par_db\<rparr>)"
proof -
  have wf: "list_all terminated (db zero_db)"
    by code_simp
  have len: "0 < length (db zero_db)"
    by code_simp
  have c0: "connects (''A'', ''B'') (db zero_db ! 0)"
    by code_simp
  have z0: "sint (distance (db zero_db ! 0)) \<le> 0"
    by code_simp
  have c1: "connects (''A'', ''B'') (db zero_db ! 1)" "0 < sint (distance (db zero_db ! 1))"
    by code_simp+
  have before: "j < 0 \<Longrightarrow> \<not> connects (''A'', ''B'') (db zero_db ! j)" for j :: nat
    by simp
  have "list_all (\<lambda>f. \<not> connects (''A'', ''D'') f) (db zero_db)"
    by code_simp
  then have none: "i < length (db zero_db) \<Longrightarrow> \<not> connects (''A'', ''D'') (db zero_db ! i)" for i
    by (simp add: list_all_length)
  have g0: "get_distance (db zero_db) (''A'', ''B'') = Inr (Some 0)"
    by code_simp
  have s0: "sint (0 :: 32 word) \<le> 0"
    by simp
  have gn: "get_distance (db zero_db) (''A'', ''D'') = Inr None"
    by code_simp
  have dn: "dfs_step par_db (''A'', ''B'') = Inr (Done (par_db\<lparr>bt := [Flight_ctor (''A'', ''B'') 5]\<rparr>))"
    by code_simp
  note ab = zero_weight_not_accepted [of zero_db "(''A'', ''B'')"]
  note ad = zero_weight_not_accepted [of zero_db "(''A'', ''D'')"]
  note pa = zero_weight_not_accepted [of par_db "(''A'', ''B'')"]
  note a = ab [THEN conjunct1, rule_format, OF wf, THEN conjunct1, rule_format, OF len c0 before z0]
  note a' = ab [THEN conjunct2, THEN conjunct1, rule_format, OF g0 s0]
  note b = ad [THEN conjunct1, rule_format, OF wf, THEN conjunct2, rule_format, OF none]
  note b' = ad [THEN conjunct2, THEN conjunct2, THEN conjunct1, rule_format, OF gn]
  note c = pa [THEN conjunct2, THEN conjunct2, THEN conjunct2, rule_format, OF dn]
  from wf c0 z0 c1 g0 gn a b dn c show ?thesis
    by (intro conjI)
qed

subsection \<open>Names and their buffers\<close>

lemma short_name_terminated: "short_name n \<Longrightarrow> NUL \<in> set (copy_buf n)"
  by (cases "20 - length n") (auto simp: short_name_def copy_buf_def)

lemma short_name_name_of: "short_name n \<Longrightarrow> name_of (copy_buf n) = n"
proof -
  assume s: "short_name n"
  then obtain k where k: "20 - length n = Suc k"
    by (cases "20 - length n") (auto simp: short_name_def)
  from s have "takeWhile (\<lambda>c. c \<noteq> NUL) n = n"
    by (auto simp: short_name_def takeWhile_eq_all_conv)
  with s k show ?thesis
    by (simp add: name_of_def copy_buf_def short_name_def takeWhile_tail)
qed












subsection \<open>Depth-first search without a route\<close>

lemma stored_terminated: "list_all stored fs \<Longrightarrow> list_all terminated fs"
  by (induction fs) (auto simp: stored_def)

lemma name_of_short: "NUL \<in> set buf \<Longrightarrow> length buf = 20 \<Longrightarrow> short_name (name_of buf)"
proof -
  assume n: "NUL \<in> set buf" and l: "length buf = 20"
  from n have "length (takeWhile (\<lambda>c. c \<noteq> NUL) buf) < length buf"
    by (induction buf) auto
  moreover have "NUL \<notin> set (takeWhile (\<lambda>c. c \<noteq> NUL) buf)"
    by (auto dest: set_takeWhileD)
  ultimately show ?thesis using l
    by (simp add: short_name_def name_of_def)
qed

lemma graph_kept_edges: "graph_kept fs fs' \<Longrightarrow> edges fs' = edges fs"
proof (induction fs arbitrary: fs')
  case Nil
  then show ?case by (simp add: graph_kept_def)
next
  case (Cons f fs)
  then obtain g gs where "fs' = g # gs" "same_edge f g" "graph_kept fs gs"
    by (auto simp: graph_kept_def list_all2_Cons1)
  with Cons.IH [of gs] show ?case
    by (simp add: edges_def same_edge_def)
qed

lemma graph_kept_stored: "graph_kept fs fs' \<Longrightarrow> list_all stored fs \<Longrightarrow> list_all stored fs'"
proof (induction fs arbitrary: fs')
  case Nil
  then show ?case by (simp add: graph_kept_def)
next
  case (Cons f fs)
  then obtain g gs where "fs' = g # gs" "same_edge f g" "graph_kept fs gs"
    by (auto simp: graph_kept_def list_all2_Cons1)
  with Cons show ?case
    by (simp add: stored_def terminated_def same_edge_def)
qed

lemma find_if_terminated:
  "list_all terminated fs \<Longrightarrow>
   find_if fs q = Inr None \<or> (\<exists>f\<in>set fs. connects q f \<and> find_if fs q = Inr (Some f))"
  by (induction fs) (auto simp: flight_eq_terminated)

lemma get_distance_terminated:
  "list_all terminated fs \<Longrightarrow>
   get_distance fs q = Inr None \<or> (\<exists>w. get_distance fs q = Inr (Some w) \<and> q \<in> edges fs)"
proof -
  assume "list_all terminated fs"
  from find_if_terminated [OF this, of q] show ?thesis
    by (cases q) (auto simp: get_distance_def edges_def connects_def image_iff)
qed

lemma find_connecting_terminated:
  "list_all terminated fs \<Longrightarrow>
   find_connecting fs n = Inr (None, fs) \<or>
   (\<exists>f\<in>set fs. \<exists>fs'. departs n f \<and>
      find_connecting fs n = Inr (Some (name_of (to_buf f), distance f), fs'))"
proof (induction fs)
  case Nil
  then show ?case by simp
next
  case (Cons f fs)
  then have t: "c_str (from_buf f) = Inr (name_of (from_buf f))"
    "c_str (to_buf f) = Inr (name_of (to_buf f))"
    by (simp_all add: c_str_def terminated_def)
  show ?case
  proof (cases "departs n f")
    case True
    with t show ?thesis
      by (auto simp: departs_def)
  next
    case False
    with t have "find_connecting (f # fs) n =
        (case find_connecting fs n of Inl e \<Rightarrow> Inl e | Inr (r, fs') \<Rightarrow> Inr (r, f # fs'))"
      by (auto simp: departs_def)
    with Cons show ?thesis
      by auto
  qed
qed

lemma dfs_step_no_route:
  assumes inv: "dfs_inv origin dest E s from" and nr: "(origin, dest) \<notin> E\<^sup>+"
  shows "dfs_step s (from, dest) = Inl StackUnderflow \<or>
    (\<exists>s' from'. dfs_step s (from, dest) = Inr (Next s' (from', dest)) \<and>
       dfs_inv origin dest E s' from')"
proof -
  from inv have st: "list_all stored (db s)" and E: "edges (db s) = E"
    and sd: "short_name dest" and sf: "short_name from" and rf: "(origin, from) \<in> E\<^sup>*"
    and fr: "\<forall>f\<in>set (bt s). \<exists>n. short_name n \<and> (origin, n) \<in> E\<^sup>* \<and>
        from_buf f = copy_buf n \<and> to_buf f = copy_buf dest"
    by (simp_all add: dfs_inv_def)
  from st have tm: "list_all terminated (db s)"
    by (rule stored_terminated)
  have "get_distance (db s) (from, dest) = Inr None"
  proof (rule ccontr)
    assume "get_distance (db s) (from, dest) \<noteq> Inr None"
    with get_distance_terminated [OF tm, of "(from, dest)"] E have "(from, dest) \<in> E"
      by auto
    with rf have "(origin, dest) \<in> E\<^sup>+"
      by (rule rtrancl_into_trancl1)
    with nr show False ..
  qed
  then have step: "dfs_step s (from, dest) = try_another s (from, dest)"
    by (rule dfs_step_no_direct) (simp add: value_or_def)
  from find_connecting_terminated [OF tm, of "from"]
  show ?thesis
  proof
    assume none: "find_connecting (db s) from = Inr (None, db s)"
    show ?thesis
    proof (cases "bt s")
      case Nil
      with none step show ?thesis
        by (simp add: try_another_def)
    next
      case (Cons f rest)
      with fr obtain n where n: "short_name n" "(origin, n) \<in> E\<^sup>*"
        "from_buf f = copy_buf n" "to_buf f = copy_buf dest"
        by auto
      with sd have c: "c_str (from_buf f) = Inr n" "c_str (to_buf f) = Inr dest"
        by (simp_all add: c_str_def short_name_terminated short_name_name_of)
      with none step Cons
      have "dfs_step s (from, dest) = Inr (Next (s\<lparr>db := db s, bt := rest\<rparr>) (n, dest))"
        by (simp add: try_another_def)
      moreover from st E sd n fr Cons have "dfs_inv origin dest E (s\<lparr>db := db s, bt := rest\<rparr>) n"
        by (simp add: dfs_inv_def)
      ultimately show ?thesis by blast
    qed
  next
    assume "\<exists>f\<in>set (db s). \<exists>fs'. departs from f \<and>
      find_connecting (db s) from = Inr (Some (name_of (to_buf f), distance f), fs')"
    then obtain f fs' where f: "f \<in> set (db s)" "departs from f"
      and fc: "find_connecting (db s) from = Inr (Some (name_of (to_buf f), distance f), fs')"
      by blast
    let ?a = "name_of (to_buf f)"
    let ?s' = "s\<lparr>db := fs', bt := Flight_ctor (from, dest) (distance f) # bt s\<rparr>"
    from fc step have "dfs_step s (from, dest) = Inr (Next ?s' (?a, dest))"
      by (simp add: try_another_extend)
    moreover have "dfs_inv origin dest E ?s' ?a"
    proof -
      from fc have k: "graph_kept (db s) fs'"
        by (rule find_connecting_kept)
      from f st have "stored f"
        by (simp add: list_all_iff)
      then have sa: "short_name ?a"
        by (simp add: stored_def terminated_def name_of_short)
      from f E have "(from, ?a) \<in> E"
        by (auto simp: edges_def departs_def image_iff)
      with rf have ra: "(origin, ?a) \<in> E\<^sup>*"
        by (rule rtrancl_into_rtrancl)
      have "from_buf (Flight_ctor (from, dest) (distance f)) = copy_buf from"
        "to_buf (Flight_ctor (from, dest) (distance f)) = copy_buf dest"
        by (simp_all add: Flight_ctor_def)
      with sf rf fr have "\<forall>g\<in>set (Flight_ctor (from, dest) (distance f) # bt s).
        \<exists>n. short_name n \<and> (origin, n) \<in> E\<^sup>* \<and> from_buf g = copy_buf n \<and> to_buf g = copy_buf dest"
        by auto
      with k st E sd sa ra show ?thesis
        by (simp add: dfs_inv_def graph_kept_edges graph_kept_stored)
    qed
    ultimately show ?thesis by blast
  qed
qed

lemma search_flight_no_route:
  "M = DepthFirst \<Longrightarrow> q = (from, dest) \<Longrightarrow> dfs_inv origin dest E s from \<Longrightarrow>
   (origin, dest) \<notin> E\<^sup>+ \<Longrightarrow> search_flight M s q = Inl StackUnderflow"
proof (induction M s q arbitrary: "from" rule: search_flight.induct)
  case (1 M s from_to)
  from dfs_step_no_route [OF "1.prems"(3,4)]
  show ?case
  proof
    assume "dfs_step s (from, dest) = Inl StackUnderflow"
    with "1.prems" show ?thesis
      by (simp add: search_step_def)
  next
    assume "\<exists>s' from'. dfs_step s (from, dest) = Inr (Next s' (from', dest)) \<and>
       dfs_inv origin dest E s' from'"
    then obtain s' from' where n: "dfs_step s (from, dest) = Inr (Next s' (from', dest))"
      and i: "dfs_inv origin dest E s' from'"
      by blast
    from n "1.prems" have st: "search_step M s from_to = Inr (Next s' (from', dest))"
      by (simp add: search_step_def)
    from "1.IH" [OF st refl "1.prems"(1) refl i "1.prems"(4)] st
    show ?thesis
      by simp
  qed
qed

text \<open>
  C1, for every database and pair of cities without route: the depth-first search, started
  with an empty stack, ends by taking the top of the empty stack. It does not return, and
  nothing reports that there is no route. (The names are shorter than 20 characters.) In
  the database of \<open>main\<close> this happens from Chicago to Toronto, after the search has
  tried Chicago to Denver and every flight on from Denver; in the empty database it happens
  at once.
\<close>

theorem depth_first_no_route:
  "list_all stored (db s) \<Longrightarrow> bt s = [] \<Longrightarrow> short_name origin \<Longrightarrow> short_name dest \<Longrightarrow>
   (origin, dest) \<notin> (edges (db s))\<^sup>+ \<Longrightarrow>
   search_flight DepthFirst s (origin, dest) = Inl StackUnderflow \<and>
   route DepthFirst s (origin, dest) = Inl StackUnderflow"
proof -
  assume a: "list_all stored (db s)" "bt s = []" "short_name origin" "short_name dest"
    "(origin, dest) \<notin> (edges (db s))\<^sup>+"
  then have "dfs_inv origin dest (edges (db s)) s origin"
    by (simp add: dfs_inv_def)
  from search_flight_no_route [OF refl refl this a(5)]
  show ?thesis
    by (simp add: route_def)
qed

theorem depth_first_no_route_witness:
  "list_all stored (db main_db) \<and> bt main_db = [] \<and>
   short_name ''Chicago'' \<and> short_name ''Toronto'' \<and>
   (''Chicago'', ''Toronto'') \<notin> (edges (db main_db))\<^sup>+ \<and>
   search_flight DepthFirst main_db (''Chicago'', ''Toronto'') = Inl StackUnderflow \<and>
   route DepthFirst main_db (''Chicago'', ''Toronto'') = Inl StackUnderflow \<and>
   search_flight DepthFirst (FlightDB_ctor MAX_size) (''Chicago'', ''Toronto'') = Inl StackUnderflow"
proof -
  have em: "search_flight DepthFirst (FlightDB_ctor MAX_size) (''Chicago'', ''Toronto'') =
      Inl StackUnderflow"
    by code_simp
  have st: "list_all stored (db main_db)"
    by code_simp
  have bt: "bt main_db = []"
    by code_simp
  have sn: "short_name ''Chicago''" "short_name ''Toronto''"
    by code_simp+
  have nr: "(''Chicago'', ''Toronto'') \<notin> (edges (db main_db))\<^sup>+"
    by code_simp
  from depth_first_no_route [OF st bt sn nr] st bt sn nr em show ?thesis
    by simp
qed

subsection \<open>Breadth-first search without a connection\<close>

lemma graph_kept_connects:
  "graph_kept fs fs' \<Longrightarrow> list_all (\<lambda>g. \<not> connects q g) fs \<Longrightarrow> list_all (\<lambda>g. \<not> connects q g) fs'"
proof (induction fs arbitrary: fs')
  case Nil
  then show ?case by (simp add: graph_kept_def)
next
  case (Cons f fs)
  then obtain g gs where "fs' = g # gs" "same_edge f g" "graph_kept fs gs"
    by (auto simp: graph_kept_def list_all2_Cons1)
  with Cons show ?case
    by (simp add: connects_def same_edge_def)
qed

lemma graph_kept_terminated:
  "graph_kept fs fs' \<Longrightarrow> list_all terminated fs \<Longrightarrow> list_all terminated fs'"
proof (induction fs arbitrary: fs')
  case Nil
  then show ?case by (simp add: graph_kept_def)
next
  case (Cons f fs)
  then obtain g gs where "fs' = g # gs" "same_edge f g" "graph_kept fs gs"
    by (auto simp: graph_kept_def list_all2_Cons1)
  with Cons show ?case
    by (simp add: terminated_def same_edge_def)
qed

lemma graph_kept_no_onward:
  assumes k: "graph_kept fs fs'"
    and n: "list_all (\<lambda>f. departs from f \<longrightarrow> list_all (\<lambda>g. \<not> connects (name_of (to_buf f), to) g) gs) fs"
  shows "list_all (\<lambda>f. departs from f \<longrightarrow> list_all (\<lambda>g. \<not> connects (name_of (to_buf f), to) g) gs) fs'"
  using k n
proof (induction fs arbitrary: fs')
  case Nil
  then show ?case by (simp add: graph_kept_def)
next
  case (Cons f fs)
  then obtain g hs where "fs' = g # hs" "same_edge f g" "graph_kept fs hs"
    by (auto simp: graph_kept_def list_all2_Cons1)
  with Cons show ?case
    by (auto simp: departs_def same_edge_def)
qed

lemma bfs_step_exhausted:
  assumes tm: "list_all terminated (db s)"
    and no: "list_all (\<lambda>f. departs from f \<longrightarrow>
        list_all (\<lambda>g. \<not> connects (name_of (to_buf f), to) g) (db s)) (db s)"
  shows "bfs_step s (from, to) = Inl BadOptionalAccess \<or>
    (\<exists>db'. bfs_step s (from, to) = Inr (Next (s\<lparr>db := db'\<rparr>) (from, to)) \<and> graph_kept (db s) db')"
proof -
  from find_connecting_terminated [OF tm, of "from"]
  show ?thesis
  proof
    assume "find_connecting (db s) from = Inr (None, db s)"
    then show ?thesis
      by (simp add: bfs_step_def)
  next
    assume "\<exists>f\<in>set (db s). \<exists>fs'. departs from f \<and>
      find_connecting (db s) from = Inr (Some (name_of (to_buf f), distance f), fs')"
    then obtain f fs' where f: "f \<in> set (db s)" "departs from f"
      and fc: "find_connecting (db s) from = Inr (Some (name_of (to_buf f), distance f), fs')"
      by blast
    from fc have k: "graph_kept (db s) fs'"
      by (rule find_connecting_kept)
    from f no have "list_all (\<lambda>g. \<not> connects (name_of (to_buf f), to) g) (db s)"
      by (simp add: list_all_iff)
    with k have "list_all (\<lambda>g. \<not> connects (name_of (to_buf f), to) g) fs'"
      by (rule graph_kept_connects)
    then have "\<forall>i<length fs'. \<not> connects (name_of (to_buf f), to) (fs' ! i)"
      by (simp add: list_all_length)
    with k tm have "get_distance fs' (name_of (to_buf f), to) = Inr None"
      by (simp add: get_distance_def find_if_none graph_kept_terminated)
    with fc have "bfs_step s (from, to) = Inr (Next (s\<lparr>db := fs'\<rparr>) (from, to))"
      by (simp add: bfs_step_def value_or_def Let_def)
    with k show ?thesis by blast
  qed
qed

lemma search_flight_exhausted:
  "M = BreadthFirst \<Longrightarrow> q = (from, to) \<Longrightarrow> list_all terminated (db s) \<Longrightarrow>
   list_all (\<lambda>f. departs from f \<longrightarrow> list_all (\<lambda>g. \<not> connects (name_of (to_buf f), to) g) gs) (db s) \<Longrightarrow>
   graph_kept gs (db s) \<Longrightarrow>
   search_flight M s q = Inl BadOptionalAccess"
proof (induction M s q rule: search_flight.induct)
  case (1 M s from_to)
  have "list_all (\<lambda>f. departs from f \<longrightarrow>
      list_all (\<lambda>g. \<not> connects (name_of (to_buf f), to) g) (db s)) (db s)"
    unfolding list_all_iff
  proof (rule ballI, rule impI)
    fix f
    assume "f \<in> set (db s)" "departs from f"
    with "1.prems"(4) have "list_all (\<lambda>g. \<not> connects (name_of (to_buf f), to) g) gs"
      by (simp add: list_all_iff)
    from graph_kept_connects [OF "1.prems"(5) this]
    show "\<forall>g\<in>set (db s). \<not> connects (name_of (to_buf f), to) g"
      by (simp add: list_all_iff)
  qed
  from bfs_step_exhausted [OF "1.prems"(3) this]
  show ?case
  proof
    assume "bfs_step s (from, to) = Inl BadOptionalAccess"
    with "1.prems" show ?thesis
      by (simp add: search_step_def)
  next
    assume "\<exists>db'. bfs_step s (from, to) = Inr (Next (s\<lparr>db := db'\<rparr>) (from, to)) \<and>
      graph_kept (db s) db'"
    then obtain db' where n: "bfs_step s (from, to) = Inr (Next (s\<lparr>db := db'\<rparr>) (from, to))"
      and k: "graph_kept (db s) db'"
      by blast
    from n "1.prems" have st: "search_step M s from_to = Inr (Next (s\<lparr>db := db'\<rparr>) (from, to))"
      by (simp add: search_step_def)
    from k "1.prems"(3) have tm: "list_all terminated (db (s\<lparr>db := db'\<rparr>))"
      by (simp add: graph_kept_terminated)
    from k "1.prems"(4) have no: "list_all (\<lambda>f. departs from f \<longrightarrow>
        list_all (\<lambda>g. \<not> connects (name_of (to_buf f), to) g) gs) (db (s\<lparr>db := db'\<rparr>))"
      by (simp add: graph_kept_no_onward)
    from "1.prems"(5) k have kk: "graph_kept gs (db (s\<lparr>db := db'\<rparr>))"
      by (simp add: graph_kept_trans)
    from "1.IH" [OF st refl "1.prems"(1) refl tm no kk] st
    show ?thesis
      by simp
  qed
qed

text \<open>
  C2, for every database and pair of cities: when no unvisited flight out of the origin
  leads to a city with a flight to the destination, the breadth-first loop does end, but in
  \<open>value()\<close> of an empty optional. The exception leaves \<open>search_flight\<close> and \<open>route\<close>;
  no result says that there is no route. In the database of \<open>main\<close> this happens from
  Denver to Chicago, and from Houston to Los Angeles, which one flight joins.
\<close>

theorem breadth_first_exhausted:
  "list_all terminated (db s) \<Longrightarrow>
   list_all (\<lambda>f. departs from f \<longrightarrow>
     list_all (\<lambda>g. \<not> connects (name_of (to_buf f), to) g) (db s)) (db s) \<Longrightarrow>
   search_flight BreadthFirst s (from, to) = Inl BadOptionalAccess \<and>
   route BreadthFirst s (from, to) = Inl BadOptionalAccess"
proof -
  assume a: "list_all terminated (db s)"
    "list_all (\<lambda>f. departs from f \<longrightarrow>
      list_all (\<lambda>g. \<not> connects (name_of (to_buf f), to) g) (db s)) (db s)"
  from search_flight_exhausted [OF refl refl a graph_kept_refl]
  show ?thesis
    by (simp add: route_def)
qed

theorem breadth_first_exhausted_witness:
  "list_all terminated (db main_db) \<and>
   list_all (\<lambda>f. departs ''Denver'' f \<longrightarrow>
     list_all (\<lambda>g. \<not> connects (name_of (to_buf f), ''Chicago'') g) (db main_db)) (db main_db) \<and>
   search_flight BreadthFirst main_db (''Denver'', ''Chicago'') = Inl BadOptionalAccess \<and>
   route BreadthFirst main_db (''Denver'', ''Chicago'') = Inl BadOptionalAccess \<and>
   search_flight BreadthFirst main_db (''Houston'', ''Los Angeles'') = Inl BadOptionalAccess"
proof -
  have hl: "search_flight BreadthFirst main_db (''Houston'', ''Los Angeles'') = Inl BadOptionalAccess"
    by code_simp
  have tm: "list_all terminated (db main_db)"
    by code_simp
  have no: "list_all (\<lambda>f. departs ''Denver'' f \<longrightarrow>
     list_all (\<lambda>g. \<not> connects (name_of (to_buf f), ''Chicago'') g) (db main_db)) (db main_db)"
    by code_simp
  from breadth_first_exhausted [OF tm no] tm no hl show ?thesis
    by simp
qed

subsection \<open>What route prints\<close>

lemma drain_prints_stack:
  "drain fs d = Inr (names, tot) \<Longrightarrow>
   names = map (\<lambda>f. name_of (from_buf f)) fs \<and> tot = d + sum_list (map (\<lambda>f. sint (distance f)) fs)"
proof (induction fs arbitrary: d names tot)
  case Nil
  then show ?case by simp
next
  case (Cons t rest)
  from Cons.prems obtain ns where c: "c_str (from_buf t) = Inr (name_of (from_buf t))"
    and r: "drain rest (d + sint (distance t)) = Inr (ns, tot)" and n: "names = name_of (from_buf t) # ns"
    by (auto simp: c_str_def Let_def split: if_splits sum.splits)
  from Cons.IH [OF r] n show ?case
    by simp
qed

text \<open>
  Whenever \<open>route\<close> prints a route, it prints the names of the stack from the top down,
  the last flight found first, then the destination; the distance is the sum over the stack.
\<close>

lemma route_prints_stack:
  "route M s q = Inr (s', names, tot) \<Longrightarrow>
   \<exists>s1. search_flight M s q = Inr s1 \<and> s' = s1\<lparr>bt := []\<rparr> \<and>
     names = map (\<lambda>f. name_of (from_buf f)) (bt s1) @ [name_of (snd q)] \<and>
     tot = sum_list (map (\<lambda>f. sint (distance f)) (bt s1))"
  by (auto simp: route_def split: sum.splits dest!: drain_prints_stack)

text \<open>
  C5 at the call that \<open>main\<close> makes: the route found is New York, Chicago, Denver, Los
  Angeles, and the distance 3000 is the sum of the three flights. \<open>route\<close> prints the
  stack from the top: Denver first, then Chicago, then New York, then the destination. The
  first name printed is not the origin asked for.
\<close>

theorem main_route_reversed:
  "map_sum id snd (route DepthFirst main_db (''New York'', ''Los Angeles'')) =
     Inr ([''Denver'', ''Chicago'', ''New York'', ''Los Angeles''], 3000) \<and>
   map_sum id bt (search_flight DepthFirst main_db (''New York'', ''Los Angeles'')) =
     Inr [Flight_ctor (''Denver'', ''Los Angeles'') 1000,
          Flight_ctor (''Chicago'', ''Los Angeles'') 1000,
          Flight_ctor (''New York'', ''Los Angeles'') 1000]"
  by code_simp

end
